theory Spec2Isabelle
  imports Complex_Main "HOL-Library.AList" "HOL-Library.Char_ord" "HOL-Library.List_Lexorder"
begin

section \<open>Data model\<close>

text \<open>
  User identifiers are JavaScript strings. A JavaScript \<open>Set\<close> iterates in insertion order
  and holds every member once, so it is a duplicate-free list with \<open>add\<close> appending a new
  member at the end. A JavaScript \<open>Map\<close> is an association list: \<open>get\<close> is \<open>map_of\<close>,
  \<open>set\<close> is \<open>AList.update\<close> (an existing key keeps its position, a new key goes last).
\<close>

type_synonym user = string

datatype error =
    InvalidUserId          \<comment> \<open>User ID must be a non-empty string\<close>
  | MissingIds             \<comment> \<open>Both referrer and candidate IDs are required\<close>
  | SelfReferral           \<comment> \<open>Self-referrals are not allowed\<close>
  | DuplicateReferrer      \<comment> \<open>Candidate already has a referrer\<close>
  | CycleDetected          \<comment> \<open>Adding this referral would create a cycle\<close>
  | TypeError              \<comment> \<open>a method call on \<open>undefined\<close>\<close>
  | ProbabilityRange       \<comment> \<open>Probability must be between 0 and 1\<close>
  | DaysRange              \<comment> \<open>Days must be between 0 and 10000\<close>

definition set_add :: "'a \<Rightarrow> 'a list \<Rightarrow> 'a list" where
  "set_add x xs = (if x \<in> set xs then xs else xs @ [x])"

text \<open>
  The fields of an \<open>InfluencerAnalysis\<close> object: those of \<open>ReferralNetwork\<close> and the two
  caches its own constructor adds.
\<close>

record network =
  referrals :: "(user \<times> user list) list"
  referrers :: "(user \<times> user) list"
  users :: "user list"
  reachCache :: "(user \<times> user list) list"
  distanceCache :: "(user \<times> (user \<times> nat) list) list"

definition new_network :: network where
  "new_network = \<lparr>referrals = [], referrers = [], users = [], reachCache = [], distanceCache = []\<rparr>"

section \<open>ReferralNetwork\<close>

definition addUser :: "network \<Rightarrow> user \<Rightarrow> error + network" where
  "addUser n userId =
     (if userId = [] then Inl InvalidUserId
      else Inr (n\<lparr>users := set_add userId (users n),
                  referrals := (if map_of (referrals n) userId = None
                                then referrals n @ [(userId, [])] else referrals n)\<rparr>))"

text \<open>
  The \<open>for\<close> loop of \<open>canReach\<close> over the direct referrals of the current user: \<open>None\<close> is
  its \<open>return true\<close>, otherwise the stack after the pushes. The stack is a list whose head
  is the top.
\<close>

fun push_referrals :: "user \<Rightarrow> user list \<Rightarrow> user list \<Rightarrow> user list option" where
  "push_referrals toUser [] stack = Some stack"
| "push_referrals toUser (referral # rest) stack =
     (if referral = toUser then None else push_referrals toUser rest (referral # stack))"

function canReach_loop ::
  "(user \<times> user list) list \<Rightarrow> user \<Rightarrow> user list \<Rightarrow> user list \<Rightarrow> bool" where
  "canReach_loop g toUser [] visited = False"
| "canReach_loop g toUser (current # stack) visited =
     (if current \<in> set visited then canReach_loop g toUser stack visited
      else (case map_of g current of
              None \<Rightarrow> canReach_loop g toUser stack (set_add current visited)
            | Some directReferrals \<Rightarrow>
                (case push_referrals toUser directReferrals stack of
                   None \<Rightarrow> True
                 | Some stack' \<Rightarrow> canReach_loop g toUser stack' (set_add current visited))))"
  by pat_completeness auto
termination
proof (relation "inv_image (less_than <*lex*> less_than)
         (\<lambda>(g, toUser, stack, visited). (card (fst ` set g - set visited), length stack))",
       goal_cases)
  case 1
  show ?case by (intro wf_inv_image wf_lex_prod wf_less_than)
next
  case 2
  then show ?case by simp
next
  case (3 g toUser current stack visited)
  then have "current \<notin> fst ` set g" by (metis map_of_eq_None_iff)
  then have "fst ` set g - set (set_add current visited) = fst ` set g - set visited"
    by (auto simp: set_add_def)
  then show ?case by simp
next
  case (4 g toUser current stack visited ds stack')
  then have "current \<in> fst ` set g" by (metis map_of_eq_None_iff option.distinct(1))
  with 4 have "fst ` set g - set (set_add current visited) \<subset> fst ` set g - set visited"
    by (auto simp: set_add_def)
  then have "card (fst ` set g - set (set_add current visited)) < card (fst ` set g - set visited)"
    by (intro psubset_card_mono) auto
  then show ?case by simp
qed

definition canReach :: "network \<Rightarrow> user \<Rightarrow> user \<Rightarrow> bool" where
  "canReach n fromUser toUser =
     (if fromUser = toUser then True else canReach_loop (referrals n) toUser [fromUser] [])"

definition wouldCreateCycle :: "network \<Rightarrow> user \<Rightarrow> user \<Rightarrow> bool" where
  "wouldCreateCycle n referrerId candidateId = canReach n candidateId referrerId"

text \<open>
  \<open>addReferral\<close> throws on a rejected request; what it has written to the object before
  the \<open>throw\<close> stays written, so the model returns the outcome together with the state.
\<close>

definition addReferral :: "network \<Rightarrow> user \<Rightarrow> user \<Rightarrow> (error + bool) \<times> network" where
  "addReferral n referrerId candidateId =
     (if referrerId = [] \<or> candidateId = [] then (Inl MissingIds, n)
      else if referrerId = candidateId then (Inl SelfReferral, n)
      else (case addUser n referrerId of
              Inl e \<Rightarrow> (Inl e, n)
            | Inr n1 \<Rightarrow>
               (case addUser n1 candidateId of
                  Inl e \<Rightarrow> (Inl e, n1)
                | Inr n2 \<Rightarrow>
                   if map_of (referrers n2) candidateId \<noteq> None then (Inl DuplicateReferrer, n2)
                   else if wouldCreateCycle n2 referrerId candidateId then (Inl CycleDetected, n2)
                   else (case map_of (referrals n2) referrerId of
                           None \<Rightarrow> (Inl TypeError, n2)
                         | Some directReferrals \<Rightarrow>
                             (Inr True,
                              n2\<lparr>referrals := AList.update referrerId
                                                (set_add candidateId directReferrals) (referrals n2),
                                  referrers := AList.update candidateId referrerId (referrers n2)\<rparr>)))))"

text \<open>
  A batch of requests, each in its own \<open>try\<close>/\<open>catch\<close> that ignores the rejection, as
  the network builder loads its sample data.
\<close>

fun addReferrals :: "network \<Rightarrow> (user \<times> user) list \<Rightarrow> network" where
  "addReferrals n [] = n"
| "addReferrals n ((referrer, candidate) # rest) =
     addReferrals (snd (addReferral n referrer candidate)) rest"


definition getDirectReferrals :: "network \<Rightarrow> user \<Rightarrow> user list" where
  "getDirectReferrals n userId = (case map_of (referrals n) userId of Some s \<Rightarrow> s | None \<Rightarrow> [])"

definition getReferrer :: "network \<Rightarrow> user \<Rightarrow> user option" where
  "getReferrer n userId = map_of (referrers n) userId"

section \<open>NetworkAnalysis\<close>

text \<open>
  The \<open>for\<close> loop of \<open>calculateReach\<close> over the direct referrals of the dequeued user. The
  queue is a list whose head is the front.
\<close>

fun visit_referrals :: "user list \<Rightarrow> user list \<Rightarrow> user list \<Rightarrow> user list \<times> user list" where
  "visit_referrals [] visited queue = (visited, queue)"
| "visit_referrals (referral # rest) visited queue =
     (if referral \<notin> set visited
      then visit_referrals rest (set_add referral visited) (queue @ [referral])
      else visit_referrals rest visited queue)"

lemma visit_referrals_sets:
  "visit_referrals ds visited queue = (visited', queue') \<Longrightarrow>
     set visited' = set visited \<union> set ds \<and> (set ds \<subseteq> set visited \<longrightarrow> queue' = queue)"
  by (induction ds visited queue rule: visit_referrals.induct)
     (auto simp: set_add_def split: if_splits)

definition children_of :: "(user \<times> user list) list \<Rightarrow> user set" where
  "children_of g = (\<Union>(k, ds)\<in>set g. set ds)"

lemma children_of_finite: "finite (children_of g)"
  by (auto simp: children_of_def)

lemma children_of_lookup: "map_of g k = Some ds \<Longrightarrow> set ds \<subseteq> children_of g"
  by (auto simp: children_of_def dest!: map_of_SomeD)

lemma bfs_measure_decreases:
  assumes "finite C" and "V' = V \<union> D" and "D \<subseteq> C" and "\<not> D \<subseteq> V"
  shows "card (C - V') < card (C - V)"
proof -
  from assms obtain d where "d \<in> D" "d \<notin> V" "d \<in> C" by auto
  with assms(2) have "C - V' \<subset> C - V" by auto
  with assms(1) show ?thesis by (intro psubset_card_mono) auto
qed

function calculateReach_loop ::
  "(user \<times> user list) list \<Rightarrow> user list \<Rightarrow> user list \<Rightarrow> user list" where
  "calculateReach_loop g [] visited = visited"
| "calculateReach_loop g (current # queue) visited =
     (case map_of g current of
        None \<Rightarrow> calculateReach_loop g queue visited
      | Some directReferrals \<Rightarrow>
          (case visit_referrals directReferrals visited queue of
             (visited', queue') \<Rightarrow> calculateReach_loop g queue' visited'))"
  by pat_completeness auto
termination
proof (relation "inv_image (less_than <*lex*> less_than)
         (\<lambda>(g, queue, visited). (card (children_of g - set visited), length queue))",
       goal_cases)
  case 1
  show ?case by (intro wf_inv_image wf_lex_prod wf_less_than)
next
  case 2
  then show ?case by simp
next
  case (3 g current queue visited ds visited' queue')
  then have v: "visit_referrals ds visited queue = (visited', queue')" by simp
  note sets = visit_referrals_sets[OF v]
  show ?case
  proof (cases "set ds \<subseteq> set visited")
    case True
    with sets have "set visited' = set visited" "queue' = queue" by auto
    then show ?thesis by simp
  next
    case False
    have "card (children_of g - set visited') < card (children_of g - set visited)"
      using children_of_finite sets children_of_lookup[OF 3(1)] False
      by (intro bfs_measure_decreases[where D = "set ds"]) auto
    then show ?thesis by simp
  qed
qed

definition calculateReach :: "network \<Rightarrow> user \<Rightarrow> int" where
  "calculateReach n userId =
     (if userId \<notin> set (users n) then 0
      else int (length (calculateReach_loop (referrals n) [userId] (set_add userId []))) - 1)"

text \<open>The same loop in \<open>getReachSet\<close>, which also fills the reach set.\<close>

fun collect_referrals ::
  "user list \<Rightarrow> user list \<Rightarrow> user list \<Rightarrow> user list \<Rightarrow> user list \<times> user list \<times> user list" where
  "collect_referrals [] visited queue reachSet = (visited, queue, reachSet)"
| "collect_referrals (referral # rest) visited queue reachSet =
     (if referral \<notin> set visited
      then collect_referrals rest (set_add referral visited) (queue @ [referral])
             (set_add referral reachSet)
      else collect_referrals rest visited queue reachSet)"

lemma collect_referrals_sets:
  "collect_referrals ds visited queue reachSet = (visited', queue', reachSet') \<Longrightarrow>
     set visited' = set visited \<union> set ds \<and> (set ds \<subseteq> set visited \<longrightarrow> queue' = queue)"
  by (induction ds visited queue reachSet rule: collect_referrals.induct)
     (auto simp: set_add_def split: if_splits)

function getReachSet_loop ::
  "(user \<times> user list) list \<Rightarrow> user list \<Rightarrow> user list \<Rightarrow> user list \<Rightarrow> user list" where
  "getReachSet_loop g [] visited reachSet = reachSet"
| "getReachSet_loop g (current # queue) visited reachSet =
     (case map_of g current of
        None \<Rightarrow> getReachSet_loop g queue visited reachSet
      | Some directReferrals \<Rightarrow>
          (case collect_referrals directReferrals visited queue reachSet of
             (visited', queue', reachSet') \<Rightarrow> getReachSet_loop g queue' visited' reachSet'))"
  by pat_completeness auto
termination
proof (relation "inv_image (less_than <*lex*> less_than)
         (\<lambda>(g, queue, visited, reachSet). (card (children_of g - set visited), length queue))",
       goal_cases)
  case 1
  show ?case by (intro wf_inv_image wf_lex_prod wf_less_than)
next
  case 2
  then show ?case by simp
next
  case (3 g current queue visited reachSet ds visited' rest queue' reachSet')
  then have v: "collect_referrals ds visited queue reachSet = (visited', queue', reachSet')"
    by simp
  note sets = collect_referrals_sets[OF v]
  show ?case
  proof (cases "set ds \<subseteq> set visited")
    case True
    with sets have "set visited' = set visited" "queue' = queue" by auto
    then show ?thesis by simp
  next
    case False
    have "card (children_of g - set visited') < card (children_of g - set visited)"
      using children_of_finite sets children_of_lookup[OF 3(1)] False
      by (intro bfs_measure_decreases[where D = "set ds"]) auto
    then show ?thesis by simp
  qed
qed

text \<open>
  \<open>getReachSet\<close> answers from \<open>reachCache\<close> when it has an entry, and stores what it
  computes; the object after the call is returned with the set.
\<close>

definition getReachSet :: "network \<Rightarrow> user \<Rightarrow> user list \<times> network" where
  "getReachSet n userId =
     (case map_of (reachCache n) userId of
        Some cached \<Rightarrow> (cached, n)
      | None \<Rightarrow>
          if userId \<notin> set (users n) then ([], n)
          else (let reachSet = getReachSet_loop (referrals n) [userId] (set_add userId []) []
                in (reachSet, n\<lparr>reachCache := AList.update userId reachSet (reachCache n)\<rparr>)))"

record ranked =
  userId :: user

record user_reach = ranked +
  reach :: int

fun userReachPairs :: "network \<Rightarrow> user list \<Rightarrow> user_reach list" where
  "userReachPairs n [] = []"
| "userReachPairs n (u # rest) =
     (let r = calculateReach n u
      in if r > 0 then \<lparr>userId = u, reach = r\<rparr> # userReachPairs n rest
         else userReachPairs n rest)"

text \<open>
  \<open>Array.prototype.slice(0, k)\<close> for an integer \<open>k\<close>: a negative end counts from the end
  of the array.
\<close>

definition slice0 :: "int \<Rightarrow> 'a list \<Rightarrow> 'a list" where
  "slice0 k xs = (if k \<ge> 0 then take (nat k) xs else take (nat (int (length xs) + k)) xs)"

text \<open>
  \<open>Array.prototype.sort\<close> is stable; with the comparator \<open>b.reach - a.reach\<close> it sorts by
  descending reach and keeps the order of equal elements, as \<open>sort_key\<close> on the negated
  reach does.
\<close>

definition getTopReferrersByReach :: "network \<Rightarrow> int \<Rightarrow> user_reach list" where
  "getTopReferrersByReach n k =
     slice0 k (sort_key (\<lambda>p. - reach p) (userReachPairs n (users n)))"

section \<open>InfluencerAnalysis\<close>

record selection = ranked +
  uniqueContribution :: nat
  totalReach :: nat
  newUsersCovered :: "user list"

record expansion =
  selectedReferrers :: "selection list"
  totalUniqueCoverage :: nat
  efficiency :: real

text \<open>
  The first loop of \<open>calculateUniqueReachExpansion\<close>: the reach set of every user, through
  \<open>getReachSet\<close> and so through the cache, which the calls fill.
\<close>

fun collect_reach_sets ::
  "network \<Rightarrow> user list \<Rightarrow> (user \<times> user list) list \<Rightarrow> user list
     \<Rightarrow> ((user \<times> user list) list \<times> user list) \<times> network" where
  "collect_reach_sets n [] userReachSets activeReferrers = ((userReachSets, activeReferrers), n)"
| "collect_reach_sets n (u # rest) userReachSets activeReferrers =
     (case getReachSet n u of
        (reachSet, n') \<Rightarrow>
          if length reachSet > 0
          then collect_reach_sets n' rest (AList.update u reachSet userReachSets)
                 (activeReferrers @ [u])
          else collect_reach_sets n' rest userReachSets activeReferrers)"

text \<open>\<open>new Set(array)\<close>: the members of the array in order, each once.\<close>

definition set_of_array :: "'a list \<Rightarrow> 'a list" where
  "set_of_array xs = fold set_add xs []"

text \<open>
  The inner loop of the greedy selection over the active referrers, with the best referrer
  so far (\<open>None\<close> is \<open>null\<close>), its new coverage and its new users. Spreading an \<open>undefined\<close>
  reach set throws a \<open>TypeError\<close>.
\<close>

fun find_best ::
  "(user \<times> user list) list \<Rightarrow> user list \<Rightarrow> user list \<Rightarrow> user option \<times> nat \<times> user list
     \<Rightarrow> error + user option \<times> nat \<times> user list" where
  "find_best userReachSets covered [] best = Inr best"
| "find_best userReachSets covered (referrer # rest) (bestReferrer, bestNewCoverage, bestNewUsers) =
     (case map_of userReachSets referrer of
        None \<Rightarrow> Inl TypeError
      | Some reachSet \<Rightarrow>
          (let newUsers = set_of_array (filter (\<lambda>user. user \<notin> set covered) reachSet)
           in if length newUsers > bestNewCoverage
              then find_best userReachSets covered rest (Some referrer, length newUsers, newUsers)
              else find_best userReachSets covered rest
                     (bestReferrer, bestNewCoverage, bestNewUsers)))"

text \<open>\<open>xs.splice(xs.indexOf(x), 1)\<close>: \<open>indexOf\<close> is \<open>-1\<close> for an absent element, and
  \<open>splice(-1, 1)\<close> removes the last element.\<close>

definition splice_out :: "'a \<Rightarrow> 'a list \<Rightarrow> 'a list" where
  "splice_out x xs = (if x \<in> set xs then remove1 x xs else butlast xs)"

function greedy_loop ::
  "(user \<times> user list) list \<Rightarrow> int \<Rightarrow> int \<Rightarrow> user list \<Rightarrow> user list \<Rightarrow> selection list
     \<Rightarrow> error + selection list \<times> user list" where
  "greedy_loop userReachSets maxReferrers i activeReferrers globalCoveredSet selected =
     (if i < maxReferrers \<and> length activeReferrers > 0 then
        (case find_best userReachSets globalCoveredSet activeReferrers (None, 0, []) of
           Inl e \<Rightarrow> Inl e
         | Inr (bestReferrer, bestNewCoverage, bestNewUsers) \<Rightarrow>
             if bestNewCoverage = 0 then Inr (selected, globalCoveredSet)
             else (case bestReferrer of
                     None \<Rightarrow> Inl TypeError
                   | Some best \<Rightarrow>
                      (case map_of userReachSets best of
                         None \<Rightarrow> Inl TypeError
                       | Some reachSet \<Rightarrow>
                           greedy_loop userReachSets maxReferrers (i + 1)
                             (splice_out best activeReferrers)
                             (fold set_add bestNewUsers globalCoveredSet)
                             (selected @
                                [\<lparr>userId = best, uniqueContribution = bestNewCoverage,
                                  totalReach = length reachSet,
                                  newUsersCovered = bestNewUsers\<rparr>]))))
      else Inr (selected, globalCoveredSet))"
  by pat_completeness auto
termination
  by (relation "measure (\<lambda>(urs, maxReferrers, i, a, c, s). nat (maxReferrers - i))") auto

declare greedy_loop.simps [simp del]

definition calculateUniqueReachExpansion ::
  "network \<Rightarrow> int \<Rightarrow> (error + expansion) \<times> network" where
  "calculateUniqueReachExpansion n maxReferrers =
     (case collect_reach_sets n (users n) [] [] of
        ((userReachSets, activeReferrers), n') \<Rightarrow>
          (case greedy_loop userReachSets maxReferrers 0 activeReferrers [] [] of
             Inl e \<Rightarrow> (Inl e, n')
           | Inr (selected, globalCoveredSet) \<Rightarrow>
               (Inr \<lparr>selectedReferrers = selected,
                     totalUniqueCoverage = length globalCoveredSet,
                     efficiency = (if length selected > 0
                                   then real (length globalCoveredSet) / real (length selected)
                                   else 0)\<rparr>,
                n')))"

text \<open>
  The breadth-first search of \<open>computeAllPairsDistances\<close> from one source; the queue holds
  users with their distances.
\<close>

fun enqueue_neighbors ::
  "user list \<Rightarrow> nat \<Rightarrow> user list \<Rightarrow> (user \<times> nat) list \<Rightarrow> user list \<times> (user \<times> nat) list" where
  "enqueue_neighbors [] distance visited queue = (visited, queue)"
| "enqueue_neighbors (neighbor # rest) distance visited queue =
     (if neighbor \<notin> set visited
      then enqueue_neighbors rest distance (set_add neighbor visited)
             (queue @ [(neighbor, distance + 1)])
      else enqueue_neighbors rest distance visited queue)"

lemma enqueue_neighbors_sets:
  "enqueue_neighbors ds distance visited queue = (visited', queue') \<Longrightarrow>
     set visited' = set visited \<union> set ds \<and> (set ds \<subseteq> set visited \<longrightarrow> queue' = queue)"
  by (induction ds distance visited queue rule: enqueue_neighbors.induct)
     (auto simp: set_add_def split: if_splits)

function distances_loop ::
  "(user \<times> user list) list \<Rightarrow> (user \<times> nat) list \<Rightarrow> user list \<Rightarrow> (user \<times> nat) list
     \<Rightarrow> (user \<times> nat) list" where
  "distances_loop g [] visited sourceDistances = sourceDistances"
| "distances_loop g ((current, distance) # queue) visited sourceDistances =
     (case enqueue_neighbors (case map_of g current of Some s \<Rightarrow> s | None \<Rightarrow> [])
             distance visited queue of
        (visited', queue') \<Rightarrow>
          distances_loop g queue' visited' (AList.update current distance sourceDistances))"
  by pat_completeness auto
termination
proof (relation "inv_image (less_than <*lex*> less_than)
         (\<lambda>(g, queue, visited, sd). (card (children_of g - set visited), length queue))",
       goal_cases)
  case 1
  show ?case by (intro wf_inv_image wf_lex_prod wf_less_than)
next
  case (2 g current distance queue visited sourceDistances visited' queue')
  define ds where "ds = (case map_of g current of Some s \<Rightarrow> s | None \<Rightarrow> [])"
  from 2 have v: "enqueue_neighbors ds distance visited queue = (visited', queue')"
    by (simp add: ds_def)
  note sets = enqueue_neighbors_sets[OF v]
  have sub: "set ds \<subseteq> children_of g"
  proof (cases "map_of g current")
    case None
    then show ?thesis by (simp add: ds_def)
  next
    case (Some s)
    then show ?thesis using children_of_lookup[OF Some] by (simp add: ds_def)
  qed
  show ?case
  proof (cases "set ds \<subseteq> set visited")
    case True
    with sets have "set visited' = set visited" "queue' = queue" by auto
    then show ?thesis by simp
  next
    case False
    have "card (children_of g - set visited') < card (children_of g - set visited)"
      using children_of_finite sets sub False
      by (intro bfs_measure_decreases[where D = "set ds"]) auto
    then show ?thesis by simp
  qed
qed

fun all_sources ::
  "(user \<times> user list) list \<Rightarrow> user list \<Rightarrow> (user \<times> (user \<times> nat) list) list
     \<Rightarrow> (user \<times> (user \<times> nat) list) list" where
  "all_sources g [] distances = distances"
| "all_sources g (source # rest) distances =
     all_sources g rest
       (AList.update source (distances_loop g [(source, 0)] (set_add source []) []) distances)"

definition computeAllPairsDistances ::
  "network \<Rightarrow> (user \<times> (user \<times> nat) list) list \<times> network" where
  "computeAllPairsDistances n =
     (if length (distanceCache n) > 0 then (distanceCache n, n)
      else (let distances = all_sources (referrals n) (users n) []
            in (distances, n\<lparr>distanceCache := distances\<rparr>)))"

text \<open>\<open>distances.get(a)?.get(b)\<close>: \<open>None\<close> is \<open>undefined\<close>.\<close>

definition dist_lookup :: "(user \<times> (user \<times> nat) list) list \<Rightarrow> user \<Rightarrow> user \<Rightarrow> nat option" where
  "dist_lookup distances a b =
     (case map_of distances a of None \<Rightarrow> None | Some row \<Rightarrow> map_of row b)"

text \<open>
  The three nested loops of \<open>calculateFlowCentrality\<close>: the brokers for one pair, the
  targets after one source, and the sources. Every broker has a score from the
  initialisation, so the read of its score is defined.
\<close>

fun score_brokers ::
  "(user \<times> (user \<times> nat) list) list \<Rightarrow> user \<Rightarrow> user \<Rightarrow> nat \<Rightarrow> user list
     \<Rightarrow> (user \<times> nat) list \<Rightarrow> (user \<times> nat) list" where
  "score_brokers distances source target directDistance [] centralityScores = centralityScores"
| "score_brokers distances source target directDistance (broker # rest) centralityScores =
     (if broker = source \<or> broker = target
      then score_brokers distances source target directDistance rest centralityScores
      else (case (dist_lookup distances source broker, dist_lookup distances broker target) of
              (Some distSourceToBroker, Some distBrokerToTarget) \<Rightarrow>
                if distSourceToBroker + distBrokerToTarget = directDistance
                then score_brokers distances source target directDistance rest
                       (AList.update broker
                          ((case map_of centralityScores broker of Some s \<Rightarrow> s | None \<Rightarrow> 0) + 1)
                          centralityScores)
                else score_brokers distances source target directDistance rest centralityScores
            | _ \<Rightarrow> score_brokers distances source target directDistance rest centralityScores))"

fun score_targets ::
  "(user \<times> (user \<times> nat) list) list \<Rightarrow> user list \<Rightarrow> user \<Rightarrow> user list
     \<Rightarrow> (user \<times> nat) list \<Rightarrow> (user \<times> nat) list" where
  "score_targets distances allUsers source [] centralityScores = centralityScores"
| "score_targets distances allUsers source (target # rest) centralityScores =
     (case dist_lookup distances source target of
        None \<Rightarrow> score_targets distances allUsers source rest centralityScores
      | Some directDistance \<Rightarrow>
          score_targets distances allUsers source rest
            (score_brokers distances source target directDistance allUsers centralityScores))"

fun score_sources ::
  "(user \<times> (user \<times> nat) list) list \<Rightarrow> user list \<Rightarrow> user list
     \<Rightarrow> (user \<times> nat) list \<Rightarrow> (user \<times> nat) list" where
  "score_sources distances allUsers [] centralityScores = centralityScores"
| "score_sources distances allUsers (source # later) centralityScores =
     score_sources distances allUsers later
       (score_targets distances allUsers source later centralityScores)"

record broker = ranked +
  centralityScore :: nat
  normalizedScore :: real

definition calculateFlowCentrality :: "network \<Rightarrow> int \<Rightarrow> broker list \<times> network" where
  "calculateFlowCentrality n topK =
     (let allUsers = users n;
          centralityScores = fold (\<lambda>user scores. AList.update user 0 scores) allUsers []
      in case computeAllPairsDistances n of
           (distances, n') \<Rightarrow>
             (let scores = score_sources distances allUsers allUsers centralityScores;
                  rankedBrokers =
                    map (\<lambda>(u, score).
                          \<lparr>userId = u, centralityScore = score,
                           normalizedScore =
                             (if length allUsers > 2
                              then real score /
                                   real ((length allUsers - 1) * (length allUsers - 2))
                              else 0)\<rparr>) scores
              in (slice0 topK
                    (sort_key (\<lambda>b. - int (centralityScore b))
                       (filter (\<lambda>b. centralityScore b > 0) rankedBrokers)),
                  n')))"

definition clearCaches :: "network \<Rightarrow> network" where
  "clearCaches n = n\<lparr>reachCache := [], distanceCache := []\<rparr>"

section \<open>NetworkGrowthSimulation\<close>

text \<open>
  JavaScript numbers are IEEE 754 doubles. The functions of this section are written over
  exact reals: a product, sum or quotient is not rounded, and no value overflows to
  \<open>Infinity\<close> or becomes \<open>NaN\<close>. Day counts, which the code only ever increments, halves with
  \<open>Math.floor\<close> or rounds with \<open>Math.ceil\<close>, are integers.

  The exact functions and the code agree on an input only when every comparison the code
  makes there has the same outcome in double arithmetic. They disagree elsewhere:
  \<^item> at probability 1 the active referrers grow by the factor 1.9 a day and pass the largest
    double on day 1099; from then on the totals of the code are \<open>Infinity\<close>, and from day
    1101 \<open>NaN\<close> (\<open>Infinity - Infinity\<close>, which \<open>Math.max\<close> keeps), whereas the exact totals
    keep growing; \<open>NaN\<close> compares false with every number, so a search that reads such a
    total takes the other branch;
  \<^item> a rounded product can fall on the other side of a target: \<open>100 * 0.29\<close> is
    \<open>28.999999999999996\<close> in doubles, below the target 29 that the exact product meets.

  For this reason nothing general about the values of the totals is derived from these
  definitions. The theorems about them evaluate the functions at given inputs, chosen so
  that every intermediate value is far from the threshold it is compared with and far
  from the range limits of doubles, where both arithmetics decide every branch alike.
\<close>

definition INITIAL_REFERRERS :: real where
  "INITIAL_REFERRERS = 100"

definition MAX_REFERRALS_PER_USER :: real where
  "MAX_REFERRALS_PER_USER = 10"

function simulate_loop :: "real \<Rightarrow> int \<Rightarrow> int \<Rightarrow> real \<Rightarrow> real \<Rightarrow> real list \<Rightarrow> real list" where
  "simulate_loop p days day activeReferrers cumulativeReferrals results =
     (if day \<le> days then
        (let expectedDailyReferrals = activeReferrers * p;
             cumulativeReferrals' = cumulativeReferrals + expectedDailyReferrals;
             referralsToday = expectedDailyReferrals;
             referrersBecomingInactive =
               min activeReferrers (referralsToday / MAX_REFERRALS_PER_USER);
             newActiveReferrers = referralsToday;
             activeReferrers' =
               max 0 (activeReferrers - referrersBecomingInactive + newActiveReferrers)
         in simulate_loop p days (day + 1) activeReferrers' cumulativeReferrals'
              (results @ [cumulativeReferrals']))
      else results)"
  by pat_completeness auto
termination
  by (relation "measure (\<lambda>(p, days, day, a, c, r). nat (days + 1 - day))") auto

declare simulate_loop.simps [simp del]

definition simulate :: "real \<Rightarrow> int \<Rightarrow> error + real list" where
  "simulate p days =
     (if p < 0 \<or> p > 1 then Inl ProbabilityRange
      else if days < 0 \<or> days > 10000 then Inl DaysRange
      else Inr (simulate_loop p days 1 INITIAL_REFERRERS 0 []))"

text \<open>The number \<open>daysToTarget\<close> returns: a day count or \<open>Infinity\<close>.\<close>

datatype days_result = Days int | Infinity

function linearSearch_loop :: "real \<Rightarrow> real \<Rightarrow> int \<Rightarrow> real \<Rightarrow> real \<Rightarrow> days_result" where
  "linearSearch_loop p targetTotal day activeReferrers cumulativeReferrals =
     (if cumulativeReferrals < targetTotal then
        (let expectedDailyReferrals = activeReferrers * p;
             cumulativeReferrals' = cumulativeReferrals + expectedDailyReferrals
         in if cumulativeReferrals' \<ge> targetTotal then Days day
            else (let referralsToday = expectedDailyReferrals;
                      referrersBecomingInactive =
                        min activeReferrers (referralsToday / MAX_REFERRALS_PER_USER);
                      newActiveReferrers = referralsToday;
                      activeReferrers' =
                        max 0 (activeReferrers - referrersBecomingInactive + newActiveReferrers);
                      day' = day + 1
                  in if day' > 20000 then Infinity
                     else linearSearch_loop p targetTotal day' activeReferrers'
                            cumulativeReferrals'))
      else Days (day - 1))"
  by pat_completeness auto
termination
  by (relation "measure (\<lambda>(p, t, day, a, c). nat (20001 - day))") auto

declare linearSearch_loop.simps [simp del]

definition linearSearchDays :: "real \<Rightarrow> real \<Rightarrow> days_result" where
  "linearSearchDays p targetTotal = linearSearch_loop p targetTotal 1 INITIAL_REFERRERS 0"

text \<open>
  An array read \<open>xs[i]\<close>: \<open>undefined\<close> outside the array, and every comparison of
  \<open>undefined\<close> with a number is false.
\<close>

definition nth_opt :: "'a list \<Rightarrow> int \<Rightarrow> 'a option" where
  "nth_opt xs i = (if 0 \<le> i \<and> i < int (length xs) then Some (xs ! nat i) else None)"

definition below_target :: "real option \<Rightarrow> real \<Rightarrow> bool" where
  "below_target v targetTotal = (case v of Some x \<Rightarrow> x < targetTotal | None \<Rightarrow> False)"

definition reaches_target :: "real option \<Rightarrow> real \<Rightarrow> bool" where
  "reaches_target v targetTotal = (case v of Some x \<Rightarrow> x \<ge> targetTotal | None \<Rightarrow> False)"

text \<open>
  The first loop of \<open>binarySearchDays\<close>, which doubles \<open>high\<close>: \<open>None\<close> is its
  \<open>return Infinity\<close>, and an exception of \<open>simulate\<close> leaves the function.
\<close>

function raise_high :: "real \<Rightarrow> real \<Rightarrow> int \<Rightarrow> real list \<Rightarrow> error + int option" where
  "raise_high p targetTotal high highSimulation =
     (if below_target (nth_opt highSimulation (high - 1)) targetTotal then
        (let high' = high * 2
         in if high' > 200000 then Inr None
            else (case simulate p high' of
                    Inl e \<Rightarrow> Inl e
                  | Inr highSimulation' \<Rightarrow> raise_high p targetTotal high' highSimulation'))
      else Inr (Some high))"
  by pat_completeness auto
termination
proof (relation "measure (\<lambda>(p, t, high, sim). nat (200001 - high))", goal_cases)
  case 1
  show ?case by simp
next
  case (2 p targetTotal high highSimulation high' sim)
  then have "1 \<le> high"
    by (auto simp: below_target_def nth_opt_def split: if_splits)
  with 2 show ?case by simp
qed

declare raise_high.simps [simp del]

function binarySearch_loop :: "real \<Rightarrow> real \<Rightarrow> int \<Rightarrow> int \<Rightarrow> error + int" where
  "binarySearch_loop p targetTotal low high =
     (if low < high then
        (let mid = (low + high) div 2
         in case simulate p mid of
              Inl e \<Rightarrow> Inl e
            | Inr results \<Rightarrow>
                if length results > 0 \<and> reaches_target (nth_opt results (mid - 1)) targetTotal
                then binarySearch_loop p targetTotal low mid
                else binarySearch_loop p targetTotal (mid + 1) high)
      else Inr low)"
  by pat_completeness auto
termination
  by (relation "measure (\<lambda>(p, t, low, high). nat (high - low))") auto

declare binarySearch_loop.simps [simp del]

definition binarySearchDays :: "real \<Rightarrow> real \<Rightarrow> error + days_result" where
  "binarySearchDays p targetTotal =
     (let low = 1;
          high = \<lceil>targetTotal / (INITIAL_REFERRERS * p)\<rceil> + 100
      in case simulate p high of
           Inl e \<Rightarrow> Inl e
         | Inr highSimulation \<Rightarrow>
             (case raise_high p targetTotal high highSimulation of
                Inl e \<Rightarrow> Inl e
              | Inr None \<Rightarrow> Inr Infinity
              | Inr (Some high') \<Rightarrow>
                  (case binarySearch_loop p targetTotal low high' of
                     Inl e \<Rightarrow> Inl e
                   | Inr d \<Rightarrow> Inr (Days d))))"

definition daysToTarget :: "real \<Rightarrow> real \<Rightarrow> error + days_result" where
  "daysToTarget p targetTotal =
     (if p \<le> 0 then Inr Infinity
      else if targetTotal \<le> 0 then Inr (Days 0)
      else if targetTotal < 1000 then Inr (linearSearchDays p targetTotal)
      else binarySearchDays p targetTotal)"

section \<open>BonusOptimization\<close>

text \<open>
  The numbers of this section are exact reals as well, with the same limits.

  \<open>results[results.length - 1] || 0\<close>: the last simulated total, 0 for an empty array. In
  the code \<open>||\<close> also turns a last total that is \<open>NaN\<close> into 0; an exact total is never \<open>NaN\<close>.
\<close>

definition final_hires :: "real list \<Rightarrow> real" where
  "final_hires results = (if results = [] then 0 else last results)"

text \<open>
  The \<open>for\<close> loop of \<open>findMaxSearchBonus\<close>: \<open>Inr None\<close> is \<open>return null\<close>, and an
  exception of \<open>simulate\<close> leaves the function.
\<close>

function findMaxSearchBonus_loop ::
  "(real \<Rightarrow> real) \<Rightarrow> real \<Rightarrow> int \<Rightarrow> int \<Rightarrow> real \<Rightarrow> error + real option" where
  "findMaxSearchBonus_loop adoptionProb targetHires days i testBonus =
     (if i < 20 then
        (let probability = adoptionProb testBonus
         in if probability \<ge> 99 / 100 then
              (case simulate probability days of
                 Inl e \<Rightarrow> Inl e
               | Inr results \<Rightarrow>
                   if final_hires results \<ge> targetHires then Inr (Some testBonus)
                   else Inr None)
            else
              (case simulate probability days of
                 Inl e \<Rightarrow> Inl e
               | Inr results \<Rightarrow>
                   if final_hires results \<ge> targetHires then Inr (Some testBonus)
                   else (let testBonus' = testBonus * 2
                         in if testBonus' > 100000 then Inr None
                            else findMaxSearchBonus_loop adoptionProb targetHires days (i + 1)
                                   testBonus')))
      else Inr None)"
  by pat_completeness auto
termination
  by (relation "measure (\<lambda>(f, t, d, i, b). nat (20 - i))") auto

declare findMaxSearchBonus_loop.simps [simp del]

definition findMaxSearchBonus :: "(real \<Rightarrow> real) \<Rightarrow> real \<Rightarrow> int \<Rightarrow> error + real option" where
  "findMaxSearchBonus adoptionProb targetHires days =
     findMaxSearchBonus_loop adoptionProb targetHires days 0 10"

text \<open>
  The binary search of \<open>minBonusForTarget\<close> runs while \<open>high - low > eps\<close>, with no bound
  on the number of rounds: the function below returns \<open>None\<close> when it does not come back.
  Over exact reals the interval halves in every round. In double arithmetic the midpoint
  of two neighbouring doubles is one of them, so for an \<open>eps\<close> below the spacing of doubles
  near the threshold the loop of the code can go on for ever where the exact search ends.
\<close>

partial_function (option) bonus_search ::
  "(real \<Rightarrow> real) \<Rightarrow> real \<Rightarrow> int \<Rightarrow> real \<Rightarrow> real \<Rightarrow> real \<Rightarrow> real option
     \<Rightarrow> (error + real option) option" where
  "bonus_search adoptionProb targetHires days eps low high bestBonus =
     (if high - low > eps then
        (let mid = (low + high) / 2;
             probability = adoptionProb mid
         in case simulate probability days of
              Inl e \<Rightarrow> Some (Inl e)
            | Inr results \<Rightarrow>
                if final_hires results \<ge> targetHires
                then bonus_search adoptionProb targetHires days eps low mid (Some mid)
                else bonus_search adoptionProb targetHires days eps mid high bestBonus)
      else Some (Inr bestBonus))"

declare bonus_search.simps [code]

definition minBonusForTarget ::
  "int \<Rightarrow> real \<Rightarrow> (real \<Rightarrow> real) \<Rightarrow> real \<Rightarrow> (error + real option) option" where
  "minBonusForTarget days targetHires adoptionProb eps =
     (if days \<le> 0 \<or> targetHires \<le> 0 then Some (Inr None)
      else (case findMaxSearchBonus adoptionProb targetHires days of
              Inl e \<Rightarrow> Some (Inl e)
            | Inr None \<Rightarrow> Some (Inr None)
            | Inr (Some maxBonus) \<Rightarrow>
                (case bonus_search adoptionProb targetHires days eps 0 maxBonus None of
                   None \<Rightarrow> None
                 | Some (Inl e) \<Rightarrow> Some (Inl e)
                 | Some (Inr None) \<Rightarrow> Some (Inr None)
                 | Some (Inr (Some bestBonus)) \<Rightarrow>
                     Some (Inr (Some (real_of_int \<lceil>bestBonus / 10\<rceil> * 10))))))"

section \<open>Vocabulary of the properties\<close>

text \<open>The directed edges held by the adjacency map.\<close>

definition edges_of :: "(user \<times> user list) list \<Rightarrow> (user \<times> user) set" where
  "edges_of g = {(r, c). \<exists>cs. map_of g r = Some cs \<and> c \<in> set cs}"

definition edges :: "network \<Rightarrow> (user \<times> user) set" where
  "edges n = edges_of (referrals n)"

text \<open>The invariant of the graph: the reverse map records exactly the edges of the adjacency
  map, and the edges have no cycle.\<close>

definition graph_inv :: "network \<Rightarrow> bool" where
  "graph_inv n \<longleftrightarrow>
     (\<forall>c r. map_of (referrers n) c = Some r \<longleftrightarrow> (r, c) \<in> edges n) \<and> acyclic (edges n)"

text \<open>The whole ranking: what \<open>getTopReferrersByReach\<close> returns when \<open>k\<close> is the number of users.\<close>

definition full_ranking :: "network \<Rightarrow> user_reach list" where
  "full_ranking n = getTopReferrersByReach n (int (length (users n)))"

text \<open>The marginal contribution of a referrer: the members of its reach set not yet covered.\<close>

definition new_users :: "(user \<Rightarrow> user list) \<Rightarrow> user list \<Rightarrow> user \<Rightarrow> user list" where
  "new_users rs covered r = set_of_array (filter (\<lambda>u. u \<notin> set covered) (rs r))"

definition gain :: "(user \<Rightarrow> user list) \<Rightarrow> user list \<Rightarrow> user \<Rightarrow> nat" where
  "gain rs covered r = length (new_users rs covered r)"

text \<open>
  The greedy selection as a relation between the budget, the active referrers, the covered
  users, the selections made and the users covered in the end. With no budget or no active
  referrer left, or when no active referrer covers a new user, nothing more is selected.
  Otherwise the selected referrer covers at least one new user, strictly more than every
  active referrer listed before it and at least as many as every one listed after it.
\<close>

inductive greedy_steps ::
  "(user \<Rightarrow> user list) \<Rightarrow> nat \<Rightarrow> user list \<Rightarrow> user list \<Rightarrow> selection list \<Rightarrow> user list \<Rightarrow> bool"
  for rs :: "user \<Rightarrow> user list" where
  out_of_budget:
    "budget = 0 \<or> active = [] \<Longrightarrow> greedy_steps rs budget active covered [] covered"
| no_gain:
    "0 < budget \<Longrightarrow> active \<noteq> [] \<Longrightarrow> \<forall>r\<in>set active. gain rs covered r = 0 \<Longrightarrow>
     greedy_steps rs budget active covered [] covered"
| pick:
    "active = before @ best # after \<Longrightarrow>
     0 < gain rs covered best \<Longrightarrow>
     \<forall>r\<in>set before. gain rs covered r < gain rs covered best \<Longrightarrow>
     \<forall>r\<in>set after. gain rs covered r \<le> gain rs covered best \<Longrightarrow>
     greedy_steps rs budget (before @ after)
       (fold set_add (new_users rs covered best) covered) rest final \<Longrightarrow>
     greedy_steps rs (Suc budget) active covered
       (\<lparr>userId = best, uniqueContribution = gain rs covered best,
         totalReach = length (rs best),
         newUsersCovered = new_users rs covered best\<rparr> # rest) final"

text \<open>What \<open>getReachSet\<close> answers is not changed by the cache entries it adds itself.\<close>

definition same_answers :: "network \<Rightarrow> network \<Rightarrow> bool" where
  "same_answers n n' \<longleftrightarrow> (\<forall>u. fst (getReachSet n' u) = fst (getReachSet n u))"

section \<open>Properties of the referral graph\<close>

lemma push_referrals_eq:
  "push_referrals t ds stack = (if t \<in> set ds then None else Some (rev ds @ stack))"
  by (induction ds arbitrary: stack) auto

lemma canReach_loop_closed:
  "\<not> canReach_loop g t stack visited \<Longrightarrow> t \<notin> set stack \<Longrightarrow> t \<notin> set visited \<Longrightarrow>
   (\<forall>v\<in>set visited. \<forall>c. (v, c) \<in> edges_of g \<longrightarrow> c \<in> set visited \<or> c \<in> set stack) \<Longrightarrow>
   \<exists>S. set stack \<union> set visited \<subseteq> S \<and> t \<notin> S \<and> (\<forall>v\<in>S. \<forall>c. (v, c) \<in> edges_of g \<longrightarrow> c \<in> S)"
proof (induction g t stack visited rule: canReach_loop.induct)
  case (1 g toUser visited)
  then show ?case by (intro exI[of _ "set visited"]) auto
next
  case (2 g toUser current stack visited)
  note IH = "2.IH" and prems = "2.prems"
  show ?case
  proof (cases "current \<in> set visited")
    case True
    from prems(1) True have nr: "\<not> canReach_loop g toUser stack visited" by simp
    have "\<exists>S. set stack \<union> set visited \<subseteq> S \<and> toUser \<notin> S \<and> (\<forall>v\<in>S. \<forall>c. (v, c) \<in> edges_of g \<longrightarrow> c \<in> S)"
    proof (rule IH(1)[OF True nr])
      show "toUser \<notin> set stack" using prems(2) by simp
      show "toUser \<notin> set visited" using prems(3) .
      show "\<forall>v\<in>set visited. \<forall>c. (v, c) \<in> edges_of g \<longrightarrow> c \<in> set visited \<or> c \<in> set stack"
        using prems(4) True by auto
    qed
    then obtain S where S: "set stack \<union> set visited \<subseteq> S" "toUser \<notin> S" "\<forall>v\<in>S. \<forall>c. (v, c) \<in> edges_of g \<longrightarrow> c \<in> S"
      by blast
    from S(1) True have "set (current # stack) \<union> set visited \<subseteq> S" by auto
    with S(2,3) show ?thesis by blast
  next
    case notvis: False
    show ?thesis
    proof (cases "map_of g current")
      case None
      then have noedge: "\<And>c. (current, c) \<notin> edges_of g" by (simp add: edges_of_def)
      from prems(1) notvis None have nr: "\<not> canReach_loop g toUser stack (set_add current visited)" by simp
      have "\<exists>S. set stack \<union> set (set_add current visited) \<subseteq> S \<and> toUser \<notin> S \<and> (\<forall>v\<in>S. \<forall>c. (v, c) \<in> edges_of g \<longrightarrow> c \<in> S)"
      proof (rule IH(2)[OF notvis None nr])
        show "toUser \<notin> set stack" using prems(2) by simp
        show "toUser \<notin> set (set_add current visited)" using prems(2,3) by (auto simp: set_add_def)
        show "\<forall>v\<in>set (set_add current visited). \<forall>c. (v, c) \<in> edges_of g \<longrightarrow> c \<in> set (set_add current visited) \<or> c \<in> set stack"
          using prems(4) noedge by (auto simp: set_add_def)
      qed
      then obtain S where S: "set stack \<union> set (set_add current visited) \<subseteq> S" "toUser \<notin> S" "\<forall>v\<in>S. \<forall>c. (v, c) \<in> edges_of g \<longrightarrow> c \<in> S"
        by blast
      from S(1) have "set (current # stack) \<union> set visited \<subseteq> S" by (auto simp: set_add_def)
      with S(2,3) show ?thesis by blast
    next
      case (Some ds)
      with prems(1) notvis have tnds: "toUser \<notin> set ds"
        by (auto simp: push_referrals_eq split: if_splits)
      then have push: "push_referrals toUser ds stack = Some (rev ds @ stack)"
        by (simp add: push_referrals_eq)
      from prems(1) notvis Some push have nr: "\<not> canReach_loop g toUser (rev ds @ stack) (set_add current visited)" by simp
      have ch: "\<And>c. (current, c) \<in> edges_of g \<Longrightarrow> c \<in> set ds" using Some by (simp add: edges_of_def)
      have "\<exists>S. set (rev ds @ stack) \<union> set (set_add current visited) \<subseteq> S \<and> toUser \<notin> S \<and> (\<forall>v\<in>S. \<forall>c. (v, c) \<in> edges_of g \<longrightarrow> c \<in> S)"
      proof (rule IH(3)[OF notvis Some push nr])
        show "toUser \<notin> set (rev ds @ stack)" using prems(2) tnds by simp
        show "toUser \<notin> set (set_add current visited)" using prems(2,3) by (auto simp: set_add_def)
        show "\<forall>v\<in>set (set_add current visited). \<forall>c. (v, c) \<in> edges_of g \<longrightarrow> c \<in> set (set_add current visited) \<or> c \<in> set (rev ds @ stack)"
          using prems(4) ch by (auto simp: set_add_def)
      qed
      then obtain S where S: "set (rev ds @ stack) \<union> set (set_add current visited) \<subseteq> S" "toUser \<notin> S" "\<forall>v\<in>S. \<forall>c. (v, c) \<in> edges_of g \<longrightarrow> c \<in> S"
        by blast
      from S(1) have "set (current # stack) \<union> set visited \<subseteq> S" by (auto simp: set_add_def)
      with S(2,3) show ?thesis by blast
    qed
  qed
qed

lemma closed_set_rtrancl:
  "(x, y) \<in> E\<^sup>* \<Longrightarrow> x \<in> S \<Longrightarrow> (\<forall>v\<in>S. \<forall>c. (v, c) \<in> E \<longrightarrow> c \<in> S) \<Longrightarrow> y \<in> S"
  by (induction rule: rtrancl_induct) auto

lemma canReach_complete:
  assumes "\<not> canReach n a b"
  shows "(a, b) \<notin> (edges n)\<^sup>*"
proof -
  from assms have ne: "a \<noteq> b" and nl: "\<not> canReach_loop (referrals n) b [a] []"
    by (auto simp: canReach_def split: if_splits)
  from canReach_loop_closed[OF nl] ne obtain S where
    S: "a \<in> S" "b \<notin> S" "\<forall>v\<in>S. \<forall>c. (v, c) \<in> edges_of (referrals n) \<longrightarrow> c \<in> S"
    by auto
  show ?thesis
  proof
    assume "(a, b) \<in> (edges n)\<^sup>*"
    then have "b \<in> S" using S(1,3) unfolding edges_def by (rule closed_set_rtrancl)
    with S(2) show False by simp
  qed
qed


lemma map_of_append_new:
  "map_of g u = None \<Longrightarrow> map_of (g @ [(u, v)]) = (map_of g)(u \<mapsto> v)"
  by (auto simp: map_add_def fun_eq_iff split: option.splits)

lemma edges_of_append_empty:
  "map_of g u = None \<Longrightarrow> edges_of (g @ [(u, [])]) = edges_of g"
  by (auto simp: edges_of_def map_add_def split: option.splits if_splits)

lemma edges_of_update:
  "map_of g r = Some cs \<Longrightarrow> edges_of (AList.update r (set_add c cs) g) = insert (r, c) (edges_of g)"
  by (auto simp: edges_of_def update_conv' set_add_def split: if_splits)

lemma addUser_edges:
  "addUser n u = Inr n' \<Longrightarrow> edges n' = edges n \<and> referrers n' = referrers n"
  by (auto simp: addUser_def edges_def edges_of_append_empty split: if_splits)

lemma addUser_has_key:
  "addUser n u = Inr n' \<Longrightarrow> map_of (referrals n') u \<noteq> None"
  by (auto simp: addUser_def map_add_def split: if_splits option.splits)

lemma addUser_keeps_key:
  "addUser n u = Inr n' \<Longrightarrow> map_of (referrals n) v \<noteq> None \<Longrightarrow> map_of (referrals n') v \<noteq> None"
  by (auto simp: addUser_def map_add_def split: if_splits option.splits)

lemma graph_inv_new: "graph_inv new_network"
  by (simp add: graph_inv_def new_network_def edges_def edges_of_def acyclic_def)

lemma graph_inv_addReferral:
  assumes inv: "graph_inv n"
  shows "graph_inv (snd (addReferral n r c))"
proof (cases "r = [] \<or> c = [] \<or> r = c")
  case True
  then show ?thesis using inv by (auto simp: addReferral_def)
next
  case False
  then have r: "r \<noteq> []" and c: "c \<noteq> []" and rc: "r \<noteq> c" by auto
  obtain n1 where n1: "addUser n r = Inr n1" using r by (simp add: addUser_def)
  obtain n2 where n2: "addUser n1 c = Inr n2" using c by (simp add: addUser_def)
  have e2: "edges n2 = edges n" "referrers n2 = referrers n"
    using addUser_edges[OF n1] addUser_edges[OF n2] by simp_all
  have inv2: "graph_inv n2" using inv e2 by (simp add: graph_inv_def)
  obtain ds where ds: "map_of (referrals n2) r = Some ds"
    using addUser_keeps_key[OF n2 addUser_has_key[OF n1]] by auto
  show ?thesis
  proof (cases "map_of (referrers n2) c \<noteq> None \<or> wouldCreateCycle n2 r c")
    case True
    then have "snd (addReferral n r c) = n2"
      using r c rc n1 n2 by (auto simp: addReferral_def)
    then show ?thesis using inv2 by simp
  next
    case False
    then have noref: "map_of (referrers n2) c = None" and nocyc: "\<not> canReach n2 c r"
      by (auto simp: wouldCreateCycle_def)
    let ?n3 = "n2\<lparr>referrals := AList.update r (set_add c ds) (referrals n2),
                   referrers := AList.update c r (referrers n2)\<rparr>"
    have res: "snd (addReferral n r c) = ?n3"
      using r c rc n1 n2 noref nocyc ds by (simp add: addReferral_def wouldCreateCycle_def)
    have e3: "edges ?n3 = insert (r, c) (edges n2)"
      using ds by (simp add: edges_def edges_of_update)
    have noin: "\<And>x. (x, c) \<notin> edges n2"
    proof
      fix x assume "(x, c) \<in> edges n2"
      with inv2 have "map_of (referrers n2) c = Some x" unfolding graph_inv_def by blast
      with noref show False by simp
    qed
    have "acyclic (edges ?n3)"
      using inv2 canReach_complete[OF nocyc] by (simp add: e3 graph_inv_def acyclic_insert)
    moreover have "\<forall>c' r'. map_of (referrers ?n3) c' = Some r' \<longleftrightarrow> (r', c') \<in> edges ?n3"
      using inv2 noin unfolding e3 by (auto simp: graph_inv_def update_conv')
    ultimately show ?thesis unfolding res graph_inv_def by blast
  qed
qed

lemma graph_inv_addReferrals: "graph_inv n \<Longrightarrow> graph_inv (addReferrals n calls)"
  by (induction n calls rule: addReferrals.induct) (auto intro: graph_inv_addReferral)

text \<open>
  Claim C1. Whatever requests are sent to \<open>addReferral\<close> on a network created empty, and
  whichever of them are rejected, the adjacency map gives every user at most one referrer,
  the reverse map records exactly that referrer, and no user reaches itself along one or
  more edges.
\<close>

theorem addReferrals_invariants:
  "(\<forall>c r1 r2. (r1, c) \<in> edges (addReferrals new_network calls)
        \<and> (r2, c) \<in> edges (addReferrals new_network calls) \<longrightarrow> r1 = r2)
   \<and> (\<forall>c r. map_of (referrers (addReferrals new_network calls)) c = Some r
        \<longleftrightarrow> (r, c) \<in> edges (addReferrals new_network calls))
   \<and> (\<forall>u. (u, u) \<notin> (edges (addReferrals new_network calls))\<^sup>+)"
proof -
  have inv: "graph_inv (addReferrals new_network calls)"
    by (rule graph_inv_addReferrals[OF graph_inv_new])
  then have a: "\<forall>c r. map_of (referrers (addReferrals new_network calls)) c = Some r
        \<longleftrightarrow> (r, c) \<in> edges (addReferrals new_network calls)"
    by (simp add: graph_inv_def)
  have b: "\<forall>u. (u, u) \<notin> (edges (addReferrals new_network calls))\<^sup>+"
    using inv by (simp add: graph_inv_def acyclic_def)
  have c: "\<forall>c r1 r2. (r1, c) \<in> edges (addReferrals new_network calls)
        \<and> (r2, c) \<in> edges (addReferrals new_network calls) \<longrightarrow> r1 = r2"
    using a by (metis option.inject)
  from a b c show ?thesis by blast
qed

lemmas graph_eval =
  new_network_def addReferral_def addUser_def set_add_def wouldCreateCycle_def canReach_def

theorem addReferrals_invariants_witness:
  "(''a'', ''b'') \<in> edges (addReferrals new_network
        [(''a'', ''b''), (''b'', ''c''), (''c'', ''a''), (''d'', ''b'')])
   \<and> (''d'', ''b'') \<notin> edges (addReferrals new_network
        [(''a'', ''b''), (''b'', ''c''), (''c'', ''a''), (''d'', ''b'')])
   \<and> map_of (referrers (addReferrals new_network
        [(''a'', ''b''), (''b'', ''c''), (''c'', ''a''), (''d'', ''b'')])) ''b'' = Some ''a''
   \<and> (''a'', ''a'') \<notin> (edges (addReferrals new_network
        [(''a'', ''b''), (''b'', ''c''), (''c'', ''a''), (''d'', ''b'')]))\<^sup>+"
proof -
  let ?N = "addReferrals new_network
        [(''a'', ''b''), (''b'', ''c''), (''c'', ''a''), (''d'', ''b'')]"
  note inv = addReferrals_invariants
      [of "[(''a'', ''b''), (''b'', ''c''), (''c'', ''a''), (''d'', ''b'')]"]
  have e: "(''a'', ''b'') \<in> edges ?N"
    by (simp add: graph_eval edges_def edges_of_def)
  have d: "(''d'', ''b'') \<notin> edges ?N"
  proof
    assume "(''d'', ''b'') \<in> edges ?N"
    with e inv have "''d'' = ''a''" by blast
    then show False by simp
  qed
  from inv e have r: "map_of (referrers ?N) ''b'' = Some ''a''" by blast
  from inv have a: "(''a'', ''a'') \<notin> (edges ?N)\<^sup>+" by blast
  from e d r a show ?thesis by blast
qed

text \<open>
  Claim C2. A rejected request is to leave the user set, the adjacency map and the reverse
  map as they were. \<open>addReferral\<close> registers both users before it checks for an existing
  referrer and for a cycle, so the request below, rejected as a duplicate referrer, has
  added the user charlie and an empty adjacency entry for charlie.
\<close>

theorem addReferral_rejection_mutates:
  "addReferrals new_network [(''alice'', ''bob'')] =
     \<lparr>referrals = [(''alice'', [''bob'']), (''bob'', [])], referrers = [(''bob'', ''alice'')],
      users = [''alice'', ''bob''], reachCache = [], distanceCache = []\<rparr>
   \<and> addReferral (addReferrals new_network [(''alice'', ''bob'')]) ''charlie'' ''bob'' =
     (Inl DuplicateReferrer,
      \<lparr>referrals = [(''alice'', [''bob'']), (''bob'', []), (''charlie'', [])],
       referrers = [(''bob'', ''alice'')],
       users = [''alice'', ''bob'', ''charlie''], reachCache = [], distanceCache = []\<rparr>)"
  by (simp add: graph_eval)

section \<open>Properties of the reach analysis\<close>

lemma collect_referrals_visit:
  "\<exists>r' q'. collect_referrals ds (u # r) q r = (u # r', q', r')
           \<and> visit_referrals ds (u # r) q = (u # r', q')"
proof (induction ds arbitrary: r q)
  case Nil
  show ?case by simp
next
  case (Cons d ds)
  show ?case
  proof (cases "d \<in> set (u # r)")
    case True
    then show ?thesis using Cons.IH[of r q] by simp
  next
    case False
    then have "set_add d (u # r) = u # (r @ [d])" "set_add d r = r @ [d]"
      by (auto simp: set_add_def)
    then show ?thesis using False Cons.IH[of "r @ [d]" "q @ [d]"] by simp
  qed
qed

lemma reach_loops_agree:
  "v = u # r \<Longrightarrow> calculateReach_loop g q v = u # getReachSet_loop g q v r"
proof (induction g q v r rule: getReachSet_loop.induct)
  case (1 g visited reachSet)
  then show ?case by simp
next
  case (2 g current queue visited reachSet)
  show ?case
  proof (cases "map_of g current")
    case None
    then show ?thesis using 2 by simp
  next
    case (Some ds)
    from collect_referrals_visit[of ds u reachSet queue] "2.prems" obtain r' q' where
      c: "collect_referrals ds visited queue reachSet = (u # r', q', r')" and
      v: "visit_referrals ds visited queue = (u # r', q')" by auto
    have "calculateReach_loop g q' (u # r') = u # getReachSet_loop g q' (u # r') r'"
      by (rule "2.IH"(2)[OF Some c[symmetric] refl refl])
    then show ?thesis using Some c v by simp
  qed
qed

text \<open>
  Claim C10. When \<open>reachCache\<close> has no entry for a user, the set \<open>getReachSet\<close> returns has
  as many members as \<open>calculateReach\<close> counts: for a known user the two breadth-first loops
  visit the same users in the same order, and the reach set is the visited set of
  \<open>calculateReach\<close> without the start user.
\<close>

theorem getReachSet_size_eq_calculateReach:
  assumes "map_of (reachCache n) u = None"
  shows "int (length (fst (getReachSet n u))) = calculateReach n u
    \<and> (u \<in> set (users n) \<longrightarrow>
          calculateReach_loop (referrals n) [u] (set_add u []) = u # fst (getReachSet n u))"
proof (cases "u \<in> set (users n)")
  case False
  then show ?thesis using assms by (simp add: getReachSet_def calculateReach_def)
next
  case True
  have "calculateReach_loop (referrals n) [u] [u] = u # getReachSet_loop (referrals n) [u] [u] []"
    by (rule reach_loops_agree) simp
  then show ?thesis
    using True assms by (simp add: getReachSet_def calculateReach_def set_add_def Let_def)
qed

lemmas reach_eval = getReachSet_def calculateReach_def Let_def

theorem getReachSet_size_eq_calculateReach_witness:
  "map_of (reachCache (addReferrals new_network [(''a'', ''b''), (''b'', ''c'')])) ''a'' = None
   \<and> fst (getReachSet (addReferrals new_network [(''a'', ''b''), (''b'', ''c'')]) ''a'') = [''b'', ''c'']
   \<and> calculateReach (addReferrals new_network [(''a'', ''b''), (''b'', ''c'')]) ''a'' = 2"
proof -
  let ?N = "addReferrals new_network [(''a'', ''b''), (''b'', ''c'')]"
  have c: "map_of (reachCache ?N) ''a'' = None" by (simp add: graph_eval)
  have s: "fst (getReachSet ?N ''a'') = [''b'', ''c'']" by (simp add: graph_eval reach_eval)
  from getReachSet_size_eq_calculateReach[OF c] s have "calculateReach ?N ''a'' = 2" by simp
  with c s show ?thesis by blast
qed

text \<open>
  Claim C3. \<open>getReachSet\<close> is to return the descendants of the user in the current graph.
  No mutation of the graph touches \<open>reachCache\<close>, so after the accepted request from b to c
  below, the set returned for a is still the one computed before it and lacks c, while
  \<open>calculateReach\<close> counts both descendants.
\<close>

theorem getReachSet_stale_after_addReferral:
  "fst (getReachSet (addReferrals new_network [(''a'', ''b'')]) ''a'') = [''b'']
   \<and> fst (addReferral (snd (getReachSet (addReferrals new_network [(''a'', ''b'')]) ''a''))
            ''b'' ''c'') = Inr True
   \<and> (''a'', ''c'') \<in> (edges (snd (addReferral
            (snd (getReachSet (addReferrals new_network [(''a'', ''b'')]) ''a'')) ''b'' ''c'')))\<^sup>+
   \<and> calculateReach (snd (addReferral
            (snd (getReachSet (addReferrals new_network [(''a'', ''b'')]) ''a'')) ''b'' ''c'')) ''a'' = 2
   \<and> fst (getReachSet (snd (addReferral
            (snd (getReachSet (addReferrals new_network [(''a'', ''b'')]) ''a'')) ''b'' ''c'')) ''a'')
       = [''b'']"
proof -
  let ?N1 = "snd (getReachSet (addReferrals new_network [(''a'', ''b'')]) ''a'')"
  let ?N2 = "snd (addReferral ?N1 ''b'' ''c'')"
  have n2: "?N2 = \<lparr>referrals = [(''a'', [''b'']), (''b'', [''c'']), (''c'', [])],
      referrers = [(''b'', ''a''), (''c'', ''b'')], users = [''a'', ''b'', ''c''],
      reachCache = [(''a'', [''b''])], distanceCache = []\<rparr>"
    by (simp add: graph_eval reach_eval)
  have "(''a'', ''b'') \<in> edges ?N2" "(''b'', ''c'') \<in> edges ?N2"
    unfolding n2 by (simp_all add: edges_def edges_of_def)
  then have p: "(''a'', ''c'') \<in> (edges ?N2)\<^sup>+" by (rule trancl_into_trancl[OF r_into_trancl])
  have a: "fst (getReachSet (addReferrals new_network [(''a'', ''b'')]) ''a'') = [''b'']"
    by (simp add: graph_eval reach_eval)
  have b: "fst (addReferral ?N1 ''b'' ''c'') = Inr True"
    by (simp add: graph_eval reach_eval)
  have c: "calculateReach ?N2 ''a'' = 2" unfolding n2 by (simp add: reach_eval set_add_def)
  have d: "fst (getReachSet ?N2 ''a'') = [''b'']" unfolding n2 by (simp add: reach_eval)
  from a b p c d show ?thesis by blast
qed

lemma userReachPairs_eq:
  "userReachPairs n us =
     map (\<lambda>u. \<lparr>userId = u, reach = calculateReach n u\<rparr>) (filter (\<lambda>u. calculateReach n u > 0) us)"
  by (induction us) (auto simp: Let_def)

lemma length_userReachPairs: "length (userReachPairs n us) \<le> length us"
  by (simp add: userReachPairs_eq)

lemma full_ranking_eq: "full_ranking n = sort_key (\<lambda>p. - reach p) (userReachPairs n (users n))"
  using length_userReachPairs[of n "users n"]
  by (simp add: full_ranking_def getTopReferrersByReach_def slice0_def)

lemma full_ranking_classes:
  "map userId (filter (\<lambda>p. reach p = r) (full_ranking n)) =
     filter (\<lambda>u. calculateReach n u = r \<and> 0 < r) (users n)"
proof -
  have "filter (\<lambda>p. reach p = r) (full_ranking n) = filter (\<lambda>p. reach p = r) (userReachPairs n (users n))"
    unfolding full_ranking_eq using sort_key_stable[of "\<lambda>p. - reach p" "- r" "userReachPairs n (users n)"]
    by simp
  then show ?thesis
    by (auto simp: userReachPairs_eq filter_map comp_def intro!: filter_cong)
qed


lemma full_ranking_sorted: "sorted_wrt (\<lambda>p q. reach q \<le> reach p) (full_ranking n)"
proof -
  have "sorted (map (\<lambda>p. - reach p) (full_ranking n))"
    unfolding full_ranking_eq by (rule sorted_sort_key)
  then show ?thesis by (simp add: sorted_map)
qed

lemma set_full_ranking:
  "set (full_ranking n) =
     (\<lambda>u. \<lparr>userId = u, reach = calculateReach n u\<rparr>) ` {u \<in> set (users n). 0 < calculateReach n u}"
  by (simp add: full_ranking_eq userReachPairs_eq)

lemma getTop_take: "0 \<le> k \<Longrightarrow> getTopReferrersByReach n k = take (nat k) (full_ranking n)"
  by (simp add: full_ranking_eq getTopReferrersByReach_def slice0_def)

text \<open>
  Claim C8, as amended. For \<open>k \<ge> 0\<close>, \<open>getTopReferrersByReach\<close> returns the first \<open>k\<close> entries of
  the ranking of the users with positive reach, each with its reach; the ranking is sorted by
  reach descending, and users of equal reach stand in the order in which they were added
  to the network. \<open>k = 0\<close> gives the empty list, and a \<open>k\<close> of at least the number of ranked
  users gives the whole ranking.
\<close>

theorem getTopReferrersByReach_ranking:
  assumes "0 \<le> k"
  shows "getTopReferrersByReach n k = take (nat k) (full_ranking n)
    \<and> (k = 0 \<longrightarrow> getTopReferrersByReach n k = [])
    \<and> (int (length (full_ranking n)) \<le> k \<longrightarrow> getTopReferrersByReach n k = full_ranking n)
    \<and> set (full_ranking n) =
         (\<lambda>u. \<lparr>userId = u, reach = calculateReach n u\<rparr>) `
           {u \<in> set (users n). 0 < calculateReach n u}
    \<and> sorted_wrt (\<lambda>p q. reach q \<le> reach p) (full_ranking n)
    \<and> (\<forall>r. map userId (filter (\<lambda>p. reach p = r) (full_ranking n)) =
              filter (\<lambda>u. calculateReach n u = r \<and> 0 < r) (users n))"
proof -
  have t: "getTopReferrersByReach n k = take (nat k) (full_ranking n)"
    by (rule getTop_take[OF assms])
  have z: "k = 0 \<longrightarrow> getTopReferrersByReach n k = []" using t by auto
  have a: "int (length (full_ranking n)) \<le> k \<longrightarrow> getTopReferrersByReach n k = full_ranking n"
    using t by simp
  show ?thesis
    using t z a full_ranking_sorted[of n] set_full_ranking[of n] full_ranking_classes[of _ n]
    by blast
qed

lemmas top_eval = getTopReferrersByReach_def slice0_def full_ranking_def

theorem getTopReferrersByReach_ranking_witness:
  "(0::int) \<le> 1
   \<and> getTopReferrersByReach (addReferrals new_network [(''b'', ''x''), (''a'', ''y'')]) 1 =
       take 1 (full_ranking (addReferrals new_network [(''b'', ''x''), (''a'', ''y'')]))
   \<and> map userId (filter (\<lambda>p. reach p = 1)
        (full_ranking (addReferrals new_network [(''b'', ''x''), (''a'', ''y'')]))) = [''b'', ''a'']"
proof -
  let ?N = "addReferrals new_network [(''b'', ''x''), (''a'', ''y'')]"
  have n: "?N = \<lparr>referrals = [(''b'', [''x'']), (''x'', []), (''a'', [''y'']), (''y'', [])],
      referrers = [(''x'', ''b''), (''y'', ''a'')], users = [''b'', ''x'', ''a'', ''y''],
      reachCache = [], distanceCache = []\<rparr>"
    by (simp add: graph_eval)
  have h: "(0::int) \<le> 1" by simp
  have f: "filter (\<lambda>u. calculateReach ?N u = 1 \<and> (0::int) < 1) (users ?N) = [''b'', ''a'']"
    unfolding n by (simp add: reach_eval set_add_def)
  from getTopReferrersByReach_ranking[OF h, of ?N] f h show ?thesis by simp
qed

text \<open>
  Claim C8 as stated fails: users b and a both have reach 1, b was added first, and the
  result lists b before a although a is the smaller identifier; and \<open>k = -1\<close> returns a
  non-empty list (\<open>slice(0, -1)\<close> drops the last entry).
\<close>

theorem getTopReferrersByReach_ties_counterexample:
  "getTopReferrersByReach (addReferrals new_network [(''b'', ''x''), (''a'', ''y'')]) 2 =
       [\<lparr>userId = ''b'', reach = 1\<rparr>, \<lparr>userId = ''a'', reach = 1\<rparr>]
   \<and> ''a'' < ''b''
   \<and> getTopReferrersByReach (addReferrals new_network [(''b'', ''x''), (''a'', ''y'')]) (- 1) =
       [\<lparr>userId = ''b'', reach = 1\<rparr>]"
proof -
  let ?N = "addReferrals new_network [(''b'', ''x''), (''a'', ''y'')]"
  have n: "?N = \<lparr>referrals = [(''b'', [''x'']), (''x'', []), (''a'', [''y'']), (''y'', [])],
      referrers = [(''x'', ''b''), (''y'', ''a'')], users = [''b'', ''x'', ''a'', ''y''],
      reachCache = [], distanceCache = []\<rparr>"
    by (simp add: graph_eval)
  have u: "userReachPairs ?N (users ?N) = [\<lparr>userId = ''b'', reach = 1\<rparr>, \<lparr>userId = ''a'', reach = 1\<rparr>]"
    unfolding n by (simp add: reach_eval set_add_def)
  show ?thesis unfolding getTopReferrersByReach_def u by (simp add: slice0_def)
qed

section \<open>Properties of the influencer analysis\<close>

lemmas flow_eval = calculateFlowCentrality_def computeAllPairsDistances_def dist_lookup_def
  slice0_def Let_def set_add_def

text \<open>
  Claim C6. \<open>calculateFlowCentrality\<close> is to count, for every node, the pairs of other nodes
  with a finite hop distance between them on whose shortest path it lies. The code takes
  each pair once, in the order in which the users were added, and only looks at the distance
  from the earlier to the later user. In the chain from a over b to c, built by adding the
  edge from b to c first, a is the last user: the pair of a and c is only tried from c to a,
  where there is no path, and b gets no score although it lies on the shortest path from a
  to c. The same chain built from its root gives b the score 1.
\<close>

theorem calculateFlowCentrality_misses_broker:
  "addReferrals new_network [(''b'', ''c''), (''a'', ''b'')] =
     \<lparr>referrals = [(''b'', [''c'']), (''c'', []), (''a'', [''b''])],
      referrers = [(''c'', ''b''), (''b'', ''a'')],
      users = [''b'', ''c'', ''a''], reachCache = [], distanceCache = []\<rparr>
   \<and> fst (computeAllPairsDistances (addReferrals new_network [(''b'', ''c''), (''a'', ''b'')])) =
       [(''b'', [(''b'', 0), (''c'', 1)]), (''c'', [(''c'', 0)]),
        (''a'', [(''a'', 0), (''b'', 1), (''c'', 2)])]
   \<and> fst (calculateFlowCentrality (addReferrals new_network [(''b'', ''c''), (''a'', ''b'')]) 10) = []
   \<and> fst (calculateFlowCentrality (addReferrals new_network [(''a'', ''b''), (''b'', ''c'')]) 10) =
       [\<lparr>userId = ''b'', centralityScore = 1, normalizedScore = 1 / 2\<rparr>]"
proof -
  have n: "addReferrals new_network [(''b'', ''c''), (''a'', ''b'')] =
     \<lparr>referrals = [(''b'', [''c'']), (''c'', []), (''a'', [''b''])],
      referrers = [(''c'', ''b''), (''b'', ''a'')],
      users = [''b'', ''c'', ''a''], reachCache = [], distanceCache = []\<rparr>"
    by (simp add: graph_eval)
  have m: "addReferrals new_network [(''a'', ''b''), (''b'', ''c'')] =
     \<lparr>referrals = [(''a'', [''b'']), (''b'', [''c'']), (''c'', [])],
      referrers = [(''b'', ''a''), (''c'', ''b'')],
      users = [''a'', ''b'', ''c''], reachCache = [], distanceCache = []\<rparr>"
    by (simp add: graph_eval)
  have d: "fst (computeAllPairsDistances (addReferrals new_network [(''b'', ''c''), (''a'', ''b'')])) =
       [(''b'', [(''b'', 0), (''c'', 1)]), (''c'', [(''c'', 0)]),
        (''a'', [(''a'', 0), (''b'', 1), (''c'', 2)])]"
    unfolding n by (simp add: flow_eval)
  have f: "fst (calculateFlowCentrality (addReferrals new_network [(''b'', ''c''), (''a'', ''b'')]) 10) = []"
    unfolding n by (simp add: flow_eval)
  have g: "fst (calculateFlowCentrality (addReferrals new_network [(''a'', ''b''), (''b'', ''c'')]) 10) =
       [\<lparr>userId = ''b'', centralityScore = 1, normalizedScore = 1 / 2\<rparr>]"
    unfolding m by (simp add: flow_eval)
  from n d f g show ?thesis by blast
qed

lemma find_best_first_max:
  assumes "\<forall>r\<in>set xs. map_of urs r = Some (rs r)"
  shows "(find_best urs covered xs (b, c, nu) = Inr (b, c, nu) \<and> (\<forall>r\<in>set xs. gain rs covered r \<le> c))
       \<or> (\<exists>before best after. xs = before @ best # after
            \<and> c < gain rs covered best
            \<and> (\<forall>r\<in>set before. gain rs covered r < gain rs covered best)
            \<and> (\<forall>r\<in>set after. gain rs covered r \<le> gain rs covered best)
            \<and> find_best urs covered xs (b, c, nu) =
                 Inr (Some best, gain rs covered best, new_users rs covered best))"
  using assms
proof (induction xs arbitrary: b c nu)
  case Nil
  then show ?case by simp
next
  case (Cons x xs)
  have mx: "map_of urs x = Some (rs x)" and rest: "\<forall>r\<in>set xs. map_of urs r = Some (rs r)"
    using Cons.prems by auto
  show ?case
  proof (cases "c < gain rs covered x")
    case True
    have step: "find_best urs covered (x # xs) (b, c, nu) =
        find_best urs covered xs (Some x, gain rs covered x, new_users rs covered x)"
      using True mx by (simp add: gain_def new_users_def Let_def)
    from Cons.IH[OF rest, of "Some x" "gain rs covered x" "new_users rs covered x"]
    show ?thesis
    proof (elim disjE conjE exE)
      assume a: "find_best urs covered xs (Some x, gain rs covered x, new_users rs covered x) =
          Inr (Some x, gain rs covered x, new_users rs covered x)"
        and b: "\<forall>r\<in>set xs. gain rs covered r \<le> gain rs covered x"
      have "x # xs = [] @ x # xs" by simp
      with True a b step show ?thesis by (intro disjI2 exI[of _ "[]"] exI[of _ x] exI[of _ xs]) simp
    next
      fix before best after
      assume a: "xs = before @ best # after" "gain rs covered x < gain rs covered best"
        "\<forall>r\<in>set before. gain rs covered r < gain rs covered best"
        "\<forall>r\<in>set after. gain rs covered r \<le> gain rs covered best"
        "find_best urs covered xs (Some x, gain rs covered x, new_users rs covered x) =
           Inr (Some best, gain rs covered best, new_users rs covered best)"
      with True step show ?thesis
        by (intro disjI2 exI[of _ "x # before"] exI[of _ best] exI[of _ after]) auto
    qed
  next
    case False
    have step: "find_best urs covered (x # xs) (b, c, nu) = find_best urs covered xs (b, c, nu)"
      using False mx by (simp add: gain_def new_users_def Let_def)
    from Cons.IH[OF rest, of b c nu]
    show ?thesis
    proof (elim disjE conjE exE)
      assume a: "find_best urs covered xs (b, c, nu) = Inr (b, c, nu)"
        and b: "\<forall>r\<in>set xs. gain rs covered r \<le> c"
      with False step show ?thesis by (intro disjI1) auto
    next
      fix before best after
      assume a: "xs = before @ best # after" "c < gain rs covered best"
        "\<forall>r\<in>set before. gain rs covered r < gain rs covered best"
        "\<forall>r\<in>set after. gain rs covered r \<le> gain rs covered best"
        "find_best urs covered xs (b, c, nu) =
           Inr (Some best, gain rs covered best, new_users rs covered best)"
      with False step show ?thesis
        by (intro disjI2 exI[of _ "x # before"] exI[of _ best] exI[of _ after]) auto
    qed
  qed
qed


lemma greedy_loop_steps:
  "\<forall>r\<in>set active. map_of urs r = Some (rs r) \<Longrightarrow>
   \<exists>rest final. greedy_loop urs maxReferrers i active covered selected = Inr (selected @ rest, final)
      \<and> greedy_steps rs (nat (maxReferrers - i)) active covered rest final"
proof (induction urs maxReferrers i active covered selected rule: greedy_loop.induct)
  case (1 urs maxReferrers i active covered selected)
  note IH = "1.IH" and maps = "1.prems"
  show ?case
  proof (cases "i < maxReferrers \<and> length active > 0")
    case False
    then have "greedy_loop urs maxReferrers i active covered selected = Inr (selected, covered)"
      by (subst greedy_loop.simps) simp
    moreover have "greedy_steps rs (nat (maxReferrers - i)) active covered [] covered"
      using False by (intro out_of_budget) auto
    ultimately show ?thesis by auto
  next
    case True
    then have budget: "nat (maxReferrers - i) = Suc (nat (maxReferrers - (i + 1)))" by linarith
    from find_best_first_max[OF maps, of covered None 0 "[]"]
    show ?thesis
    proof (elim disjE conjE exE)
      assume fb: "find_best urs covered active (None, 0, []) = Inr (None, 0, [])"
        and z: "\<forall>r\<in>set active. gain rs covered r \<le> 0"
      have "greedy_loop urs maxReferrers i active covered selected = Inr (selected, covered)"
        using True fb by (subst greedy_loop.simps) simp
      moreover have "greedy_steps rs (nat (maxReferrers - i)) active covered [] covered"
        using True z by (intro no_gain) auto
      ultimately show ?thesis by auto
    next
      fix before best after
      assume split: "active = before @ best # after"
        and pos: "0 < gain rs covered best"
        and bef: "\<forall>r\<in>set before. gain rs covered r < gain rs covered best"
        and aft: "\<forall>r\<in>set after. gain rs covered r \<le> gain rs covered best"
        and fb: "find_best urs covered active (None, 0, []) =
                   Inr (Some best, gain rs covered best, new_users rs covered best)"
      have mb: "map_of urs best = Some (rs best)" using maps split by simp
      have "best \<notin> set before" using bef by auto
      then have sp: "splice_out best active = before @ after"
        using split by (simp add: splice_out_def remove1_append)
      let ?sel = "\<lparr>userId = best, uniqueContribution = gain rs covered best,
                   totalReach = length (rs best), newUsersCovered = new_users rs covered best\<rparr>"
      let ?cov = "fold set_add (new_users rs covered best) covered"
      have unfold: "greedy_loop urs maxReferrers i active covered selected =
          greedy_loop urs maxReferrers (i + 1) (before @ after) ?cov (selected @ [?sel])"
        using True fb pos mb sp by (subst greedy_loop.simps) simp
      have maps': "\<forall>r\<in>set (splice_out best active). map_of urs r = Some (rs r)"
        using maps split sp by auto
      have "\<exists>rest final. greedy_loop urs maxReferrers (i + 1) (splice_out best active) ?cov
                (selected @ [?sel]) = Inr ((selected @ [?sel]) @ rest, final)
            \<and> greedy_steps rs (nat (maxReferrers - (i + 1))) (splice_out best active) ?cov rest final"
        using pos by (intro IH[OF True fb refl refl _ refl mb maps']) simp
      then obtain rest final where
        r: "greedy_loop urs maxReferrers (i + 1) (before @ after) ?cov (selected @ [?sel]) =
              Inr (selected @ ?sel # rest, final)"
        and g: "greedy_steps rs (nat (maxReferrers - (i + 1))) (before @ after) ?cov rest final"
        unfolding sp by auto
      have "greedy_steps rs (nat (maxReferrers - i)) active covered (?sel # rest) final"
        unfolding budget by (rule pick[OF split pos bef aft g])
      with r unfold show ?thesis by auto
    qed
  qed
qed


lemma getReachSet_same_answers: "same_answers n (snd (getReachSet n v))"
proof (cases "map_of (reachCache n) v = None \<and> v \<in> set (users n)")
  case False
  then have "snd (getReachSet n v) = n"
    by (auto simp: getReachSet_def split: option.splits)
  then show ?thesis by (simp add: same_answers_def)
next
  case True
  define S where "S = getReachSet_loop (referrals n) [v] (set_add v []) []"
  define n' where "n' = n\<lparr>reachCache := AList.update v S (reachCache n)\<rparr>"
  have r: "getReachSet n v = (S, n')"
    using True by (simp add: getReachSet_def S_def n'_def Let_def)
  have "fst (getReachSet n' u) = fst (getReachSet n u)" for u
  proof (cases "u = v")
    case True
    then show ?thesis using r by (simp add: getReachSet_def n'_def update_conv')
  next
    case False
    then show ?thesis by (simp add: getReachSet_def n'_def update_conv' Let_def split: option.splits)
  qed
  then show ?thesis using r by (simp add: same_answers_def)
qed

lemma getReachSet_users: "users (snd (getReachSet n v)) = users n"
  by (simp add: getReachSet_def Let_def split: option.splits)

lemma collect_reach_sets_result:
  assumes "same_answers n0 n"
  shows "\<exists>urs' n'. collect_reach_sets n us urs active =
            ((urs', active @ filter (\<lambda>u. fst (getReachSet n0 u) \<noteq> []) us), n')
          \<and> (\<forall>u. map_of urs' u =
                (if u \<in> set us \<and> fst (getReachSet n0 u) \<noteq> [] then Some (fst (getReachSet n0 u))
                 else map_of urs u))"
  using assms
proof (induction us arbitrary: n urs active)
  case Nil
  then show ?case by simp
next
  case (Cons x xs)
  obtain S n1 where g: "getReachSet n x = (S, n1)" by (cases "getReachSet n x")
  have S: "S = fst (getReachSet n0 x)"
    using g Cons.prems by (auto simp: same_answers_def dest: spec[of _ x])
  have sa: "same_answers n0 n1"
    using getReachSet_same_answers[of n x] g Cons.prems by (simp add: same_answers_def)
  show ?case
  proof (cases "S = []")
    case True
    from Cons.IH[OF sa, of urs active] obtain urs' n' where
      r: "collect_reach_sets n1 xs urs active =
            ((urs', active @ filter (\<lambda>u. fst (getReachSet n0 u) \<noteq> []) xs), n')"
      and m: "\<forall>u. map_of urs' u =
                (if u \<in> set xs \<and> fst (getReachSet n0 u) \<noteq> [] then Some (fst (getReachSet n0 u))
                 else map_of urs u)" by blast
    have "collect_reach_sets n (x # xs) urs active =
            ((urs', active @ filter (\<lambda>u. fst (getReachSet n0 u) \<noteq> []) (x # xs)), n')"
      using g True S r by simp
    moreover have "\<forall>u. map_of urs' u =
                (if u \<in> set (x # xs) \<and> fst (getReachSet n0 u) \<noteq> []
                 then Some (fst (getReachSet n0 u)) else map_of urs u)"
      using m True S by auto
    ultimately show ?thesis by blast
  next
    case False
    from Cons.IH[OF sa, of "AList.update x S urs" "active @ [x]"] obtain urs' n' where
      r: "collect_reach_sets n1 xs (AList.update x S urs) (active @ [x]) =
            ((urs', (active @ [x]) @ filter (\<lambda>u. fst (getReachSet n0 u) \<noteq> []) xs), n')"
      and m: "\<forall>u. map_of urs' u =
                (if u \<in> set xs \<and> fst (getReachSet n0 u) \<noteq> [] then Some (fst (getReachSet n0 u))
                 else map_of (AList.update x S urs) u)" by blast
    have "collect_reach_sets n (x # xs) urs active =
            ((urs', active @ filter (\<lambda>u. fst (getReachSet n0 u) \<noteq> []) (x # xs)), n')"
      using g False S r by simp
    moreover have "\<forall>u. map_of urs' u =
                (if u \<in> set (x # xs) \<and> fst (getReachSet n0 u) \<noteq> []
                 then Some (fst (getReachSet n0 u)) else map_of urs u)"
      using m False S by (auto simp: update_conv')
    ultimately show ?thesis by blast
  qed
qed

text \<open>
  Claim C7, as amended. \<open>calculateUniqueReachExpansion\<close> performs the greedy selection among
  the users whose reach set, as \<open>getReachSet\<close> returns it, is not empty, listed in the order in
  which they were added to the network: in each of at most \<open>maxReferrers\<close> rounds it selects
  the user whose reach set has the most members not yet covered, the one listed first among
  equals, and it stops as soon as no user covers anyone new. It reports the number of
  covered users, and as efficiency that number divided by the number of selections, or 0
  when nothing was selected.
\<close>

theorem calculateUniqueReachExpansion_greedy:
  "\<exists>selected final.
     fst (calculateUniqueReachExpansion n maxReferrers) =
       Inr \<lparr>selectedReferrers = selected, totalUniqueCoverage = length final,
            efficiency = (if selected = [] then 0
                          else real (length final) / real (length selected))\<rparr>
     \<and> greedy_steps (\<lambda>u. fst (getReachSet n u)) (nat maxReferrers)
          (filter (\<lambda>u. fst (getReachSet n u) \<noteq> []) (users n)) [] selected final"
proof -
  let ?rs = "\<lambda>u. fst (getReachSet n u)"
  let ?active = "filter (\<lambda>u. ?rs u \<noteq> []) (users n)"
  have "same_answers n n" by (simp add: same_answers_def)
  from collect_reach_sets_result[OF this, of "users n" "[]" "[]"] obtain urs n' where
    c: "collect_reach_sets n (users n) [] [] = ((urs, ?active), n')"
    and m: "\<forall>u. map_of urs u =
              (if u \<in> set (users n) \<and> ?rs u \<noteq> [] then Some (?rs u) else map_of [] u)"
    by auto
  have maps: "\<forall>r\<in>set ?active. map_of urs r = Some (?rs r)" using m by simp
  from greedy_loop_steps[OF maps, of maxReferrers 0 "[]" "[]"] obtain selected final where
    g: "greedy_loop urs maxReferrers 0 ?active [] [] = Inr (selected, final)"
    and s: "greedy_steps ?rs (nat maxReferrers) ?active [] selected final" by auto
  have "fst (calculateUniqueReachExpansion n maxReferrers) =
       Inr \<lparr>selectedReferrers = selected, totalUniqueCoverage = length final,
            efficiency = (if selected = [] then 0
                          else real (length final) / real (length selected))\<rparr>"
    using c g by (simp add: calculateUniqueReachExpansion_def)
  with s show ?thesis by blast
qed


lemmas expansion_eval = calculateUniqueReachExpansion_def greedy_loop.simps splice_out_def
  set_of_array_def

lemma expansion_example:
  "fst (calculateUniqueReachExpansion (addReferrals new_network [(''b'', ''x''), (''a'', ''y'')]) 1) =
     Inr \<lparr>selectedReferrers =
            [\<lparr>userId = ''b'', uniqueContribution = 1, totalReach = 1, newUsersCovered = [''x'']\<rparr>],
          totalUniqueCoverage = 1, efficiency = 1\<rparr>"
proof -
  have n: "addReferrals new_network [(''b'', ''x''), (''a'', ''y'')] =
      \<lparr>referrals = [(''b'', [''x'']), (''x'', []), (''a'', [''y'']), (''y'', [])],
      referrers = [(''x'', ''b''), (''y'', ''a'')], users = [''b'', ''x'', ''a'', ''y''],
      reachCache = [], distanceCache = []\<rparr>"
    by (simp add: graph_eval)
  show ?thesis unfolding n by (simp add: expansion_eval reach_eval set_add_def)
qed

theorem calculateUniqueReachExpansion_greedy_witness:
  "\<exists>final. greedy_steps
      (\<lambda>u. fst (getReachSet (addReferrals new_network [(''b'', ''x''), (''a'', ''y'')]) u))
      (nat 1)
      (filter (\<lambda>u. fst (getReachSet (addReferrals new_network [(''b'', ''x''), (''a'', ''y'')]) u) \<noteq> [])
         (users (addReferrals new_network [(''b'', ''x''), (''a'', ''y'')])))
      []
      [\<lparr>userId = ''b'', uniqueContribution = 1, totalReach = 1, newUsersCovered = [''x'']\<rparr>]
      final
    \<and> length final = 1"
proof -
  let ?N = "addReferrals new_network [(''b'', ''x''), (''a'', ''y'')]"
  from calculateUniqueReachExpansion_greedy[of ?N 1] obtain selected final where
    r: "fst (calculateUniqueReachExpansion ?N 1) =
       Inr \<lparr>selectedReferrers = selected, totalUniqueCoverage = length final,
            efficiency = (if selected = [] then 0
                          else real (length final) / real (length selected))\<rparr>"
    and g: "greedy_steps (\<lambda>u. fst (getReachSet ?N u)) (nat 1)
          (filter (\<lambda>u. fst (getReachSet ?N u) \<noteq> []) (users ?N)) [] selected final"
    by blast
  from r have "selected =
      [\<lparr>userId = ''b'', uniqueContribution = 1, totalReach = 1, newUsersCovered = [''x'']\<rparr>]"
    and "length final = 1"
    unfolding expansion_example by auto
  with g show ?thesis by blast
qed

text \<open>
  Claim C7 as stated fails: a and b each cover one new user, and b, added first, is selected
  although a is the smaller identifier.
\<close>

theorem calculateUniqueReachExpansion_tie_counterexample:
  "fst (calculateUniqueReachExpansion (addReferrals new_network [(''b'', ''x''), (''a'', ''y'')]) 1) =
     Inr \<lparr>selectedReferrers =
            [\<lparr>userId = ''b'', uniqueContribution = 1, totalReach = 1, newUsersCovered = [''x'']\<rparr>],
          totalUniqueCoverage = 1, efficiency = 1\<rparr>
   \<and> fst (getReachSet (addReferrals new_network [(''b'', ''x''), (''a'', ''y'')]) ''a'') = [''y'']
   \<and> fst (getReachSet (addReferrals new_network [(''b'', ''x''), (''a'', ''y'')]) ''b'') = [''x'']
   \<and> ''a'' < ''b''"
proof -
  have n: "addReferrals new_network [(''b'', ''x''), (''a'', ''y'')] =
      \<lparr>referrals = [(''b'', [''x'']), (''x'', []), (''a'', [''y'']), (''y'', [])],
      referrers = [(''x'', ''b''), (''y'', ''a'')], users = [''b'', ''x'', ''a'', ''y''],
      reachCache = [], distanceCache = []\<rparr>"
    by (simp add: graph_eval)
  have a: "fst (getReachSet (addReferrals new_network [(''b'', ''x''), (''a'', ''y'')]) ''a'') = [''y'']"
    unfolding n by (simp add: reach_eval set_add_def)
  have b: "fst (getReachSet (addReferrals new_network [(''b'', ''x''), (''a'', ''y'')]) ''b'') = [''x'']"
    unfolding n by (simp add: reach_eval set_add_def)
  have c: "''a'' < ''b''" by simp
  from expansion_example a b c show ?thesis by blast
qed

section \<open>Properties of the growth simulation\<close>

text \<open>
  One day of the exact simulation, in closed form, and its end: the rewrite rules with which
  \<open>simulate\<close> is evaluated at a given probability and number of days.
\<close>

lemma simulate_loop_step:
  assumes "day \<le> days" "0 \<le> a" "0 \<le> p" "p \<le> 1"
  shows "simulate_loop p days day a c rs =
           simulate_loop p days (day + 1) (a * (1 + 9 * p / 10)) (c + a * p) (rs @ [c + a * p])"
proof -
  have "a * p / 10 \<le> a * 1" using assms by (intro order_trans[OF _ mult_left_mono[of p 1 a]]) auto
  then have m: "min a (a * p / 10) = a * p / 10" by simp
  have "0 \<le> a - a * p / 10 + a * p" using assms \<open>a * p / 10 \<le> a * 1\<close> by simp
  then have x: "max 0 (a - a * p / 10 + a * p) = a - a * p / 10 + a * p" by simp
  have e: "a - a * p / 10 + a * p = a * (1 + 9 * p / 10)" by (simp add: algebra_simps)
  have "max 0 (a - min a (a * p / MAX_REFERRALS_PER_USER) + a * p) = a * (1 + 9 * p / 10)"
    unfolding MAX_REFERRALS_PER_USER_def m x by (rule e)
  then show ?thesis
    using assms(1) by (subst simulate_loop.simps) (simp only: Let_def if_True)
qed

lemma simulate_loop_stop: "\<not> day \<le> days \<Longrightarrow> simulate_loop p days day a c rs = rs"
  by (subst simulate_loop.simps) simp

lemmas sim_steps = simulate_def INITIAL_REFERRERS_def simulate_loop_step simulate_loop_stop

text \<open>
  Claim C5. \<open>daysToTarget\<close> is to return the first day on which the cumulative total reaches
  the target, or the unreachable sentinel when a ceiling is exceeded, and never to throw.
  For probability 1/2 and target 1000000 the total first reaches the target on day 25,
  but \<open>binarySearchDays\<close> starts from the bound 20100 and \<open>simulate\<close> rejects more than 10000
  days, so the call throws. With probability 0 and target 0 the result is \<open>Infinity\<close>, not 0.
\<close>

theorem daysToTarget_throws_on_reachable_target:
  "daysToTarget (1 / 2) 1000000 = Inl DaysRange
   \<and> (case simulate (1 / 2) 25 of
         Inl e \<Rightarrow> False
       | Inr results \<Rightarrow> results ! 23 < 1000000 \<and> 1000000 \<le> results ! 24)
   \<and> daysToTarget 0 0 = Inr Infinity"
proof -
  have a: "daysToTarget (1 / 2) 1000000 = Inl DaysRange" by code_simp
  have b: "(case simulate (1 / 2) 25 of
         Inl e \<Rightarrow> False
       | Inr results \<Rightarrow> results ! 23 < 1000000 \<and> 1000000 \<le> results ! 24)"
    by (simp add: sim_steps)
  have c: "daysToTarget 0 0 = Inr Infinity" by (simp add: daysToTarget_def)
  from a b c show ?thesis by blast
qed

section \<open>Properties of the bonus optimizer\<close>

lemmas bonus_eval = minBonusForTarget_def findMaxSearchBonus_def findMaxSearchBonus_loop.simps
  bonus_search.simps final_hires_def Let_def

text \<open>
  Claim C4. \<open>minBonusForTarget\<close> is to return a multiple of 10 that meets the target and is
  tight whenever the target is achievable. With an adoption probability that jumps from
  0 to 1 at a bonus of 10, the target of 1 hire in 1 day is met at bonus 10 (100 hires),
  but the search only tries midpoints below 10 and returns \<open>null\<close>. With a constant
  probability 1 it returns 10 although the bonus 0 meets the target as well.
\<close>

theorem minBonusForTarget_null_on_achievable_target:
  "minBonusForTarget 1 1 (\<lambda>bonus. if bonus \<ge> 10 then 1 else 0) (1 / 1000) = Some (Inr None)
   \<and> simulate (if (10::real) \<ge> 10 then 1 else 0) 1 = Inr [100]
   \<and> minBonusForTarget 1 1 (\<lambda>bonus. 1) (1 / 1000) = Some (Inr (Some 10))
   \<and> simulate ((\<lambda>bonus::real. 1) (10 - 10)) 1 = Inr [100]"
proof -
  have a: "minBonusForTarget 1 1 (\<lambda>bonus. if bonus \<ge> 10 then 1 else 0) (1 / 1000) = Some (Inr None)"
    by (simp add: sim_steps bonus_eval)
  have b: "simulate (if (10::real) \<ge> 10 then 1 else 0) 1 = Inr [100]"
    by (simp add: sim_steps)
  have r: "\<lceil>(1::real) / 16384\<rceil> = 1" by (rule ceiling_unique) simp_all
  have c: "minBonusForTarget 1 1 (\<lambda>bonus. 1) (1 / 1000) = Some (Inr (Some 10))"
    by (simp add: sim_steps bonus_eval r)
  have d: "simulate ((\<lambda>bonus::real. 1) (10 - 10)) 1 = Inr [100]"
    by (simp add: sim_steps)
  from a b c d show ?thesis by blast
qed

end
